theory Spec2Isabelle
  imports Main "HOL-Library.Word"
begin

unbundle bit_operations_syntax

section \<open>Data model\<close>

text \<open>
  Go's \<open>byte\<close> is an 8-bit character and a Go \<open>string\<close> is a sequence of bytes, so
  both \<open>[]byte\<close> and \<open>string\<close> are modelled as \<open>char list\<close>.  \<open>uint64\<close> is a 64-bit
  word: \<open>+\<close>, \<open>-\<close> and \<open>*\<close> wrap modulo \<open>2 ^ 64\<close>.
\<close>

type_synonym byte = char
type_synonym uint64 = "64 word"

text \<open>
  The ways a call can end without returning: the run-time panics the package can
  raise, and the runtime's fatal out-of-memory error.
\<close>

datatype panic =
    DivideByZero
  | IndexOutOfRange
  | SliceBoundsOutOfRange
  | MakesliceLenOutOfRange
  | OutOfMemory

text \<open>\<open>type IDEncoder struct { Alphabet; BlockSize; Checksum }\<close>\<close>

record IDEncoder =
  Alphabet :: "byte list"
  BlockSize :: uint64
  Checksum :: uint64

text \<open>The package constants \<open>DefaultAlphabet\<close>, \<open>DefaultBlockSize\<close>, \<open>DefaultChecksum\<close>
  and \<open>MinLength\<close>, and the encoder the command line builds from them.\<close>

definition DefaultAlphabet :: "byte list" where
  "DefaultAlphabet = ''3fq4rv5z7hsdamn8bpygw96j2cetxuk''"

definition DefaultBlockSize :: uint64 where
  "DefaultBlockSize = 24"

definition DefaultChecksum :: uint64 where
  "DefaultChecksum = 29"

definition MinLength :: uint64 where
  "MinLength = 5"

definition DefaultEncoder :: IDEncoder where
  "DefaultEncoder =
     \<lparr>Alphabet = DefaultAlphabet, BlockSize = DefaultBlockSize, Checksum = DefaultChecksum\<rparr>"

section \<open>Go primitives used by the package\<close>

text \<open>
  What \<open>make\<close> can deliver depends on the Go runtime and on the machine, not on the
  package, so the model takes it as a parameter: \<open>maxAlloc\<close> is the runtime's limit on the
  size of one allocation (\<open>2 ^ 48\<close> bytes on linux/amd64), and \<open>storage\<close> is the length
  of the longest padding for which the run has storage (for the slice \<open>make\<close> returns
  and for the copies of it that \<open>string(...)\<close>, \<open>Sprintf\<close> and \<open>+\<close> build).
\<close>

record runtime =
  maxAlloc :: nat
  storage :: nat

text \<open>A linux/amd64 run with room for paddings of up to \<open>2 ^ 20\<close> bytes.\<close>

definition Amd64Runtime :: runtime where
  "Amd64Runtime = \<lparr>maxAlloc = 2 ^ 48, storage = 2 ^ 20\<rparr>"

text \<open>Indexing a slice, \<open>xs[i]\<close>: a panic when \<open>i\<close> is out of range.\<close>

definition at_index :: "'a list \<Rightarrow> nat \<Rightarrow> panic + 'a" where
  "at_index xs i = (if i < length xs then Inr (xs ! i) else Inl IndexOutOfRange)"

text \<open>\<open>uint64(len(xs))\<close>.\<close>

definition len64 :: "'a list \<Rightarrow> uint64" where
  "len64 xs = word_of_nat (length xs)"

text \<open>
  \<open>string(b)\<close> for a \<open>byte\<close> \<open>b\<close>: Go converts an integer to the UTF-8 encoding of the
  code point with that number.  A byte below \<open>0x80\<close> gives the one-byte string; a byte
  from \<open>0x80\<close> on gives the two bytes \<open>0xC0 | b >> 6\<close> and \<open>0x80 | b & 0x3F\<close>, written
  here bit by bit (\<open>Char\<close> takes the least significant bit first).
\<close>

definition string_of_byte :: "byte \<Rightarrow> byte list" where
  "string_of_byte b =
     (if (of_char b :: nat) < 128 then [b]
      else [Char (digit6 b) (digit7 b) False False False False True True,
            Char (digit0 b) (digit1 b) (digit2 b) (digit3 b) (digit4 b) (digit5 b) False True])"

text \<open>
  \<open>bytes.IndexByte(b, c)\<close>: the index of the first instance of \<open>c\<close> in \<open>b\<close>, or \<open>-1\<close>
  when \<open>c\<close> is not present.
\<close>

fun IndexByte_from :: "int \<Rightarrow> byte list \<Rightarrow> byte \<Rightarrow> int" where
  "IndexByte_from k [] c = - 1"
| "IndexByte_from k (b # bs) c = (if b = c then k else IndexByte_from (k + 1) bs c)"

definition IndexByte :: "byte list \<Rightarrow> byte \<Rightarrow> int" where
  "IndexByte b c = IndexByte_from 0 b c"

section \<open>The package\<close>

text \<open>\<open>func (i *IDEncoder) checksum(n uint64) byte\<close>\<close>

definition checksum :: "IDEncoder \<Rightarrow> uint64 \<Rightarrow> panic + byte" where
  "checksum i n =
     (if Checksum i = 0 then Inl DivideByZero
      else at_index (Alphabet i) (unat (n mod Checksum i)))"

text \<open>
  \<open>func (i *IDEncoder) scramble(n uint64) uint64\<close>.  The loop counts \<open>bit\<close> (here
  \<open>bt\<close>) from 0 up to \<open>BlockSize\<close>; a shift by 64 or more gives 0 in Go, as \<open>push_bit\<close>
  does on a word.
\<close>

function scramble_loop :: "uint64 \<Rightarrow> uint64 \<Rightarrow> uint64 \<Rightarrow> uint64 \<Rightarrow> uint64" where
  "scramble_loop B n bt result =
     (if bt < B then
        scramble_loop B n (bt + 1)
          (if n AND push_bit (unat bt) 1 \<noteq> 0
           then result OR push_bit (unat (B - bt - 1)) 1
           else result)
      else result)"
  by pat_completeness auto
termination
proof (relation "measure (\<lambda>(B, n, bt, result). unat B - unat bt)")
  show "wf (measure (\<lambda>(B, n, bt, result). unat B - unat bt))"
    by simp
next
  fix B n bt result :: uint64
  assume lt: "bt < B"
  then have small: "unat bt < unat B"
    by (simp add: word_less_nat_alt)
  have "unat B < 2 ^ 64"
    using unsigned_less [of B, where ?'a = nat] by simp
  with small have "unat (bt + 1) = unat bt + 1"
    by (simp add: unat_word_ariths)
  with small show "((B, n, bt + 1,
       if n AND push_bit (unat bt) 1 \<noteq> 0
       then result OR push_bit (unat (B - bt - 1)) 1 else result),
      B, n, bt, result) \<in> measure (\<lambda>(B, n, bt, result). unat B - unat bt)"
    by simp
qed

declare scramble_loop.simps [simp del]

definition scramble :: "IDEncoder \<Rightarrow> uint64 \<Rightarrow> uint64" where
  "scramble i n =
     (let mask = push_bit (unat (BlockSize i)) 1 - 1;
          result = n AND NOT mask
      in scramble_loop (BlockSize i) n 0 result)"

text \<open>
  \<open>func times(c byte, n uint64) []byte\<close>, here \<open>times_bytes\<close>.  \<open>make([]byte, n)\<close>
  panics with \<open>makeslice: len out of range\<close> when \<open>n\<close> is not a length an \<open>int\<close> can hold
  (from \<open>2 ^ 63\<close> on) or is above \<open>maxAlloc\<close>, and the run ends with the out-of-memory
  error when there is no storage for \<open>n\<close> bytes.  Otherwise the loop writes \<open>c\<close> at
  every index.
\<close>

function times_loop :: "byte \<Rightarrow> uint64 \<Rightarrow> uint64 \<Rightarrow> byte list \<Rightarrow> byte list" where
  "times_loop c n i chars =
     (if i < n then times_loop c n (i + 1) (chars[unat i := c]) else chars)"
  by pat_completeness auto
termination
proof (relation "measure (\<lambda>(c, n, i, chars). unat n - unat i)")
  show "wf (measure (\<lambda>(c, n, i, chars). unat n - unat i))"
    by simp
next
  fix c :: byte and n i :: uint64 and chars :: "byte list"
  assume "i < n"
  then have small: "unat i < unat n"
    by (simp add: word_less_nat_alt)
  have "unat n < 2 ^ 64"
    using unsigned_less [of n, where ?'a = nat] by simp
  with small have "unat (i + 1) = unat i + 1"
    by (simp add: unat_word_ariths)
  with small show "((c, n, i + 1, chars[unat i := c]), c, n, i, chars)
      \<in> measure (\<lambda>(c, n, i, chars). unat n - unat i)"
    by simp
qed

declare times_loop.simps [simp del]

definition times_bytes :: "runtime \<Rightarrow> byte \<Rightarrow> uint64 \<Rightarrow> panic + byte list" where
  "times_bytes rt c n =
     (if 2 ^ 63 \<le> n \<or> maxAlloc rt < unat n then Inl MakesliceLenOutOfRange
      else if storage rt < unat n then Inl OutOfMemory
      else Inr (times_loop c n 0 (replicate (unat n) (CHR 0x00))))"

text \<open>
  \<open>func leftPad(str string, length uint64, pad byte) string\<close>.  The count
  \<open>length - uint64(len(str))\<close> is an unsigned subtraction: it wraps around when
  \<open>str\<close> is longer than \<open>length\<close>.
\<close>

definition leftPad :: "runtime \<Rightarrow> byte list \<Rightarrow> uint64 \<Rightarrow> byte \<Rightarrow> panic + byte list" where
  "leftPad rt str l pad =
     (case times_bytes rt pad (l - len64 str) of
        Inl e \<Rightarrow> Inl e
      | Inr padding \<Rightarrow> Inr (padding @ str))"

text \<open>
  \<open>func (i *IDEncoder) enbase(x, minLength uint64) string\<close>.  The loop
  \<open>for x > 0 { c := x % n; x = x / n; chars = append([]byte{Alphabet[c]}, chars...) }\<close>
  does not end for an alphabet of one symbol, so it is a partial function: \<open>None\<close> is
  a run that never returns.
\<close>

partial_function (option) enbase_loop ::
    "byte list \<Rightarrow> uint64 \<Rightarrow> byte list \<Rightarrow> (panic + byte list) option" where
  "enbase_loop alphabet x chars =
     (if 0 < x then
        (if len64 alphabet = 0 then Some (Inl DivideByZero)
         else if unat (x mod len64 alphabet) < length alphabet
           then enbase_loop alphabet (x div len64 alphabet)
                  (alphabet ! unat (x mod len64 alphabet) # chars)
           else Some (Inl IndexOutOfRange))
      else Some (Inr chars))"

declare enbase_loop.simps [code]

definition enbase ::
    "runtime \<Rightarrow> IDEncoder \<Rightarrow> uint64 \<Rightarrow> uint64 \<Rightarrow> (panic + byte list) option" where
  "enbase rt i x minLength =
     (case enbase_loop (Alphabet i) x [] of
        None \<Rightarrow> None
      | Some (Inl e) \<Rightarrow> Some (Inl e)
      | Some (Inr chars) \<Rightarrow>
          (case at_index (Alphabet i) 0 of
             Inl e \<Rightarrow> Some (Inl e)
           | Inr zero \<Rightarrow> Some (leftPad rt chars minLength zero)))"

text \<open>
  \<open>func (i *IDEncoder) debase(x []byte) uint64\<close>: a left fold; \<open>uint64(-1)\<close> is the
  digit of a byte that \<open>IndexByte\<close> does not find.
\<close>

definition debase_step :: "IDEncoder \<Rightarrow> uint64 \<Rightarrow> byte \<Rightarrow> uint64" where
  "debase_step i result val =
     result * len64 (Alphabet i) + word_of_int (IndexByte (Alphabet i) val)"

definition debase :: "IDEncoder \<Rightarrow> byte list \<Rightarrow> uint64" where
  "debase i x = foldl (debase_step i) 0 x"

text \<open>
  \<open>func (i *IDEncoder) Encode(n, minLength uint64) (encoded string, ok bool)\<close> of
  package \<open>idencoder\<close>: the checksum symbol, converted with \<open>string(...)\<close>, then the body.
\<close>

definition Encode ::
    "runtime \<Rightarrow> IDEncoder \<Rightarrow> uint64 \<Rightarrow> uint64 \<Rightarrow> (panic + byte list \<times> bool) option" where
  "Encode rt i n minLength =
     (case checksum i n of
        Inl e \<Rightarrow> Some (Inl e)
      | Inr c \<Rightarrow>
          (case enbase rt i (scramble i n) minLength of
             None \<Rightarrow> None
           | Some (Inl e) \<Rightarrow> Some (Inl e)
           | Some (Inr body) \<Rightarrow> Some (Inr (string_of_byte c @ body, True))))"

text \<open>
  \<open>func (i *IDEncoder) Decode(s string) (decoded uint64, ok bool)\<close> of package
  \<open>idencoder\<close>.  \<open>b[1:]\<close> panics on the empty string.
\<close>

definition Decode :: "IDEncoder \<Rightarrow> byte list \<Rightarrow> panic + uint64 \<times> bool" where
  "Decode i s =
     (case s of
        [] \<Rightarrow> Inl SliceBoundsOutOfRange
      | b0 # rest \<Rightarrow>
          (let v = scramble i (debase i rest)
           in case checksum i v of
                Inl e \<Rightarrow> Inl e
              | Inr c \<Rightarrow> Inr (v, c = b0)))"

text \<open>
  The earlier \<open>package main\<close> copy of the encoder (\<open>src/idencoder.go\<close>) has the same
  \<open>checksum\<close>, \<open>scramble\<close>, \<open>enbase\<close> and \<open>debase\<close>; its \<open>Encode\<close> and \<open>Decode\<close>
  return an error flag in place of \<open>ok\<close>.
\<close>

definition Encode_err ::
    "runtime \<Rightarrow> IDEncoder \<Rightarrow> uint64 \<Rightarrow> uint64 \<Rightarrow> (panic + byte list \<times> bool) option" where
  "Encode_err rt i n minLength =
     (case checksum i n of
        Inl e \<Rightarrow> Some (Inl e)
      | Inr c \<Rightarrow>
          (case enbase rt i (scramble i n) minLength of
             None \<Rightarrow> None
           | Some (Inl e) \<Rightarrow> Some (Inl e)
           | Some (Inr body) \<Rightarrow> Some (Inr (string_of_byte c @ body, False))))"

definition Decode_err :: "IDEncoder \<Rightarrow> byte list \<Rightarrow> panic + uint64 \<times> bool" where
  "Decode_err i s =
     (case s of
        [] \<Rightarrow> Inl SliceBoundsOutOfRange
      | b0 # rest \<Rightarrow>
          (let v = scramble i (debase i rest)
           in case checksum i v of
                Inl e \<Rightarrow> Inl e
              | Inr c \<Rightarrow> Inr (v, c \<noteq> b0)))"

section \<open>Configurations\<close>

text \<open>
  A valid configuration: an alphabet of at least two symbols without duplicates, a
  checksum modulus between 1 and the alphabet's length, and a block size below 64.
\<close>

definition valid_config :: "IDEncoder \<Rightarrow> bool" where
  "valid_config i \<longleftrightarrow>
     distinct (Alphabet i) \<and> 2 \<le> length (Alphabet i) \<and>
     0 < Checksum i \<and> unat (Checksum i) \<le> length (Alphabet i) \<and>
     BlockSize i < 64"

text \<open>
  A valid configuration whose first alphabet symbol is a byte above \<open>0x7F\<close>.
\<close>

definition HighByteEncoder :: IDEncoder where
  "HighByteEncoder = \<lparr>Alphabet = [CHR 0xC8, CHR ''a''], BlockSize = 0, Checksum = 2\<rparr>"

text \<open>
  The runtime can deliver a padding of \<open>k\<close> bytes: \<open>make\<close> neither panics nor runs out of
  storage.
\<close>

definition can_allocate :: "runtime \<Rightarrow> nat \<Rightarrow> bool" where
  "can_allocate rt k \<longleftrightarrow> k < 2 ^ 63 \<and> k \<le> maxAlloc rt \<and> k \<le> storage rt"

text \<open>The number of base-\<open>K\<close> digits of \<open>m\<close> (none for 0): the natural length.\<close>

fun ndigits :: "nat \<Rightarrow> nat \<Rightarrow> nat" where
  "ndigits K m = (if m = 0 \<or> K < 2 then 0 else Suc (ndigits K (m div K)))"

declare ndigits.simps [simp del]

text \<open>The digits \<open>enbase\<close> writes for \<open>m\<close>, most significant first.\<close>

fun digits :: "byte list \<Rightarrow> nat \<Rightarrow> byte list" where
  "digits alphabet m =
     (if m = 0 \<or> length alphabet < 2 then []
      else digits alphabet (m div length alphabet) @ [alphabet ! (m mod length alphabet)])"

declare digits.simps [simp del]

section \<open>The scrambler reverses the low block\<close>

lemma unat_succ_lt: "(j::uint64) < B \<Longrightarrow> unat (j + 1) = unat j + 1"
proof -
  assume "j < B"
  then have small: "unat j < unat B"
    by (simp add: word_less_nat_alt)
  have "unat B < 2 ^ 64"
    using unsigned_less [of B, where ?'a = nat] by simp
  with small show ?thesis
    by (simp add: unat_word_ariths)
qed

lemma unat_rev_index: "(j::uint64) < B \<Longrightarrow> unat (B - j - 1) = unat B - unat j - 1"
proof -
  assume lt: "j < B"
  then have "unat (j + 1) \<le> unat B"
    by (simp add: unat_succ_lt word_less_nat_alt)
  then have "j + 1 \<le> B"
    by (simp add: word_le_nat_alt)
  then have "unat (B - (j + 1)) = unat B - unat (j + 1)"
    by (rule unat_sub)
  with lt show ?thesis
    by (simp add: unat_succ_lt diff_diff_eq)
qed

lemma and_single_bit: "(n::uint64) AND push_bit m 1 \<noteq> 0 \<longleftrightarrow> bit n m"
  by (simp only: bit_iff_and_push_bit_not_eq_0)

lemma bit_single_bit: "bit (push_bit m (1::uint64)) k \<longleftrightarrow> k = m \<and> m < 64"
  by (auto simp add: bit_push_bit_iff bit_1_iff simp del: push_bit_of_1)

lemma scramble_loop_bit:
  "bit (scramble_loop B n j r) k \<longleftrightarrow>
     bit r k \<or> (k < 64 \<and> (\<exists>i. unat j \<le> i \<and> i < unat B \<and> bit n i \<and> k = unat B - i - 1))"
proof (induction B n j r rule: scramble_loop.induct)
  case (1 B n bt result)
  show ?case
  proof (cases "bt < B")
    case False
    then have "unat B \<le> unat bt"
      by (simp add: word_less_nat_alt)
    with False show ?thesis
      by (subst scramble_loop.simps) auto
  next
    case True
    let ?r = "if n AND push_bit (unat bt) 1 \<noteq> 0
              then result OR push_bit (unat (B - bt - 1)) 1 else result"
    have step: "scramble_loop B n bt result = scramble_loop B n (bt + 1) ?r"
      using True by (subst scramble_loop.simps) simp
    have r: "bit ?r k \<longleftrightarrow> bit result k \<or> (k < 64 \<and> bit n (unat bt) \<and> k = unat B - unat bt - 1)"
      using True
      by (auto simp add: and_single_bit bit_single_bit bit_or_iff unat_rev_index
            simp del: push_bit_of_1 dest: bit_imp_le_length)
    have "bit (scramble_loop B n (bt + 1) ?r) k \<longleftrightarrow>
       bit ?r k \<or> (k < 64 \<and> (\<exists>i. unat (bt + 1) \<le> i \<and> i < unat B \<and> bit n i \<and> k = unat B - i - 1))"
      using 1 True by simp
    also have "\<dots> \<longleftrightarrow> bit result k \<or>
       (k < 64 \<and> (\<exists>i. unat bt \<le> i \<and> i < unat B \<and> bit n i \<and> k = unat B - i - 1))"
      (is "?L \<longleftrightarrow> ?R")
    proof
      assume ?L
      then consider "bit result k"
        | "k < 64" "bit n (unat bt)" "k = unat B - unat bt - 1"
        | i where "k < 64" "unat bt + 1 \<le> i" "i < unat B" "bit n i" "k = unat B - i - 1"
        unfolding r unat_succ_lt [OF True] by blast
      then show ?R
      proof cases
        case 1
        then show ?thesis by simp
      next
        case 2
        moreover have "unat bt < unat B"
          using True by (simp add: word_less_nat_alt)
        ultimately show ?thesis by blast
      next
        case 3
        moreover from 3 have "unat bt \<le> i" by simp
        ultimately show ?thesis by blast
      qed
    next
      assume ?R
      then consider "bit result k"
        | i where "k < 64" "unat bt \<le> i" "i < unat B" "bit n i" "k = unat B - i - 1"
        by blast
      then show ?L
      proof cases
        case 1
        then show ?thesis unfolding r by simp
      next
        case 2
        show ?thesis
        proof (cases "i = unat bt")
          case True
          with 2 show ?thesis unfolding r by simp
        next
          case False
          with 2 have "unat bt + 1 \<le> i" by simp
          with 2 show ?thesis
            unfolding unat_succ_lt [OF \<open>bt < B\<close>] by blast
        qed
      qed
    qed
    finally show ?thesis
      using step by simp
  qed
qed

lemma scramble_bit:
  assumes "BlockSize c < 64"
  shows "bit (scramble c n) k \<longleftrightarrow>
     (if k < unat (BlockSize c) then bit n (unat (BlockSize c) - k - 1) else bit n k)"
proof -
  let ?B = "unat (BlockSize c)"
  have B: "?B < 64"
    using assms by (simp add: word_less_nat_alt)
  have mask: "push_bit ?B (1::uint64) - 1 = mask ?B"
    by (simp add: mask_eq_exp_minus_1)
  have init: "bit (n AND NOT (push_bit ?B 1 - 1)) k \<longleftrightarrow> bit n k \<and> \<not> k < ?B"
    unfolding mask by (auto simp: bit_and_iff bit_not_iff bit_mask_iff dest: bit_imp_le_length)
  have "bit (scramble c n) k \<longleftrightarrow>
      (bit n k \<and> \<not> k < ?B) \<or>
      (k < 64 \<and> (\<exists>i. unat (0::uint64) \<le> i \<and> i < ?B \<and> bit n i \<and> k = ?B - i - 1))"
    unfolding scramble_def Let_def scramble_loop_bit init ..
  also have "\<dots> \<longleftrightarrow> (if k < ?B then bit n (?B - k - 1) else bit n k)"
  proof (cases "k < ?B")
    case True
    have "(\<exists>i. unat (0::uint64) \<le> i \<and> i < ?B \<and> bit n i \<and> k = ?B - i - 1)
        \<longleftrightarrow> bit n (?B - k - 1)"
    proof
      assume "\<exists>i. unat (0::uint64) \<le> i \<and> i < ?B \<and> bit n i \<and> k = ?B - i - 1"
      then obtain i where i: "i < ?B" "bit n i" "k = ?B - i - 1"
        by blast
      then have "?B - k - 1 = i"
        by simp
      with i show "bit n (?B - k - 1)"
        by simp
    next
      assume b: "bit n (?B - k - 1)"
      have "?B - k - 1 < ?B" "k = ?B - (?B - k - 1) - 1"
        using True by simp_all
      with b show "\<exists>i. unat (0::uint64) \<le> i \<and> i < ?B \<and> bit n i \<and> k = ?B - i - 1"
        by (intro exI [of _ "?B - k - 1"]) simp
    qed
    with True B show ?thesis
      by simp
  next
    case False
    then show ?thesis by auto
  qed
  finally show ?thesis .
qed

lemma scramble_twice:
  assumes "BlockSize c < 64"
  shows "scramble c (scramble c n) = n"
proof (rule bit_eqI)
  fix k
  let ?B = "unat (BlockSize c)"
  show "bit (scramble c (scramble c n)) k = bit n k"
  proof (cases "k < ?B")
    case True
    then have "?B - k - 1 < ?B" "?B - (?B - k - 1) - 1 = k"
      by simp_all
    with True assms show ?thesis
      by (simp add: scramble_bit del: One_nat_def)
  next
    case False
    with assms show ?thesis
      by (simp add: scramble_bit)
  qed
qed

text \<open>
  Claim C8.  For a block size \<open>B < 64\<close>, every bit of \<open>scramble n\<close> at a position
  \<open>k \<ge> B\<close> is the bit of \<open>n\<close> at \<open>k\<close>, every bit at a position \<open>k < B\<close> is the bit
  of \<open>n\<close> at \<open>B - k - 1\<close>, and with \<open>B = 0\<close> the function is the identity.
\<close>

theorem scramble_reverses_low_block:
  assumes "BlockSize c < 64"
  shows "(\<forall>k. unat (BlockSize c) \<le> k \<longrightarrow> bit (scramble c n) k = bit n k) \<and>
         (\<forall>k. k < unat (BlockSize c) \<longrightarrow>
              bit (scramble c n) k = bit n (unat (BlockSize c) - k - 1)) \<and>
         (BlockSize c = 0 \<longrightarrow> scramble c n = n)"
proof (intro conjI allI impI)
  fix k
  assume "unat (BlockSize c) \<le> k"
  then show "bit (scramble c n) k = bit n k"
    using assms by (simp add: scramble_bit)
next
  fix k
  assume "k < unat (BlockSize c)"
  then show "bit (scramble c n) k = bit n (unat (BlockSize c) - k - 1)"
    using assms by (simp add: scramble_bit)
next
  assume "BlockSize c = 0"
  then show "scramble c n = n"
    by (intro bit_eqI) (simp add: scramble_bit)
qed

theorem scramble_reverses_low_block_witness:
  "BlockSize DefaultEncoder < 64 \<and>
   bit (scramble DefaultEncoder 1) 30 = bit (1 :: uint64) 30 \<and>
   bit (scramble DefaultEncoder 1) 23 = bit (1 :: uint64) (24 - 23 - 1) \<and>
   BlockSize (DefaultEncoder\<lparr>BlockSize := 0\<rparr>) < 64 \<and>
   scramble (DefaultEncoder\<lparr>BlockSize := 0\<rparr>) 5 = 5"
proof -
  have B: "BlockSize DefaultEncoder < 64" "unat (BlockSize DefaultEncoder) = 24"
    by (simp_all add: DefaultEncoder_def DefaultBlockSize_def)
  have B0: "BlockSize (DefaultEncoder\<lparr>BlockSize := 0\<rparr>) < 64"
    by simp
  from scramble_reverses_low_block [OF B(1), of 1]
  have "bit (scramble DefaultEncoder 1) 30 = bit (1 :: uint64) 30"
    and "bit (scramble DefaultEncoder 1) 23 = bit (1 :: uint64) (24 - 23 - 1)"
    unfolding B(2) by simp_all
  moreover from scramble_reverses_low_block [OF B0, of 5]
  have "scramble (DefaultEncoder\<lparr>BlockSize := 0\<rparr>) 5 = 5"
    by simp
  ultimately show ?thesis
    using B(1) B0 by simp
qed

text \<open>
  Claim C6.  For every 64-bit \<open>n\<close> and every block size \<open>B < 64\<close>, scrambling twice
  gives \<open>n\<close> back: \<open>scramble\<close> is self-inverse.
\<close>

theorem scramble_involution:
  assumes "BlockSize c < 64"
  shows "scramble c (scramble c n) = n"
  using assms by (rule scramble_twice)

theorem scramble_involution_witness:
  "BlockSize DefaultEncoder < 64 \<and>
   scramble DefaultEncoder (scramble DefaultEncoder 1) = 1"
proof -
  have B: "BlockSize DefaultEncoder < 64"
    by (simp add: DefaultEncoder_def DefaultBlockSize_def)
  from scramble_involution [OF B, of 1] B show ?thesis
    by simp
qed

section \<open>Base conversion\<close>

lemma distinct_length_le_256: "distinct (A :: byte list) \<Longrightarrow> length A \<le> 256"
proof -
  assume "distinct A"
  then have "length A = card (set A)"
    by (simp add: distinct_card)
  also have "\<dots> \<le> card (UNIV :: char set)"
    by (rule card_mono) simp_all
  finally show ?thesis
    by (simp add: card_UNIV_char)
qed

lemma unat_len64: "length xs < 2 ^ 64 \<Longrightarrow> unat (len64 xs) = length xs"
  by (simp add: len64_def unat_of_nat)

lemma unat_len64_distinct: "distinct (A :: byte list) \<Longrightarrow> unat (len64 A) = length A"
  using distinct_length_le_256 [of A] by (simp add: unat_len64)

lemma IndexByte_from_nth:
  "distinct A \<Longrightarrow> j < length A \<Longrightarrow> IndexByte_from k A (A ! j) = k + int j"
proof (induction A arbitrary: k j)
  case Nil
  then show ?case by simp
next
  case (Cons b bs)
  show ?case
  proof (cases j)
    case 0
    then show ?thesis by simp
  next
    case (Suc j')
    with Cons.prems have "bs ! j' \<in> set bs" "b \<notin> set bs" "j' < length bs" "distinct bs"
      by simp_all
    then have "b \<noteq> bs ! j'"
      by blast
    with Suc Cons.IH [of j' "k + 1"] \<open>distinct bs\<close> \<open>j' < length bs\<close> show ?thesis
      by simp
  qed
qed

lemma IndexByte_nth: "distinct A \<Longrightarrow> j < length A \<Longrightarrow> IndexByte A (A ! j) = int j"
  by (simp add: IndexByte_def IndexByte_from_nth)

lemma IndexByte_from_absent: "c \<notin> set A \<Longrightarrow> IndexByte_from k A c = - 1"
  by (induction A arbitrary: k) auto

lemma IndexByte_absent: "c \<notin> set A \<Longrightarrow> IndexByte A c = - 1"
  by (simp add: IndexByte_def IndexByte_from_absent)

lemma length_digits: "length (digits A m) = ndigits (length A) m"
proof (induction A m rule: digits.induct)
  case (1 alphabet m)
  then show ?case
    by (subst digits.simps, subst ndigits.simps) simp
qed

lemma ndigits_le: "2 \<le> K \<Longrightarrow> m < 2 ^ j \<Longrightarrow> ndigits K m \<le> j"
proof (induction j arbitrary: m)
  case 0
  then show ?case by (subst ndigits.simps) simp
next
  case (Suc j)
  show ?case
  proof (cases "m = 0")
    case True
    then show ?thesis by (subst ndigits.simps) simp
  next
    case False
    have "m div K \<le> m div 2"
      using Suc.prems(1) by (simp add: div_le_mono2)
    also have "\<dots> < 2 ^ j"
      using Suc.prems(2) by simp
    finally have "ndigits K (m div K) \<le> j"
      using Suc.IH Suc.prems(1) by simp
    with False Suc.prems(1) show ?thesis
      by (subst ndigits.simps) simp
  qed
qed

lemma ndigits_unat_le_64: "2 \<le> K \<Longrightarrow> ndigits K (unat (x :: uint64)) \<le> 64"
  using ndigits_le [of K "unat x" 64] unsigned_less [of x, where ?'a = nat] by simp

lemma debase_digits:
  assumes "distinct (Alphabet c)" "2 \<le> length (Alphabet c)"
  shows "foldl (debase_step c) 0 (digits (Alphabet c) m) = word_of_nat m"
proof (induction m rule: less_induct)
  case (less m)
  let ?A = "Alphabet c"
  let ?K = "length ?A"
  show ?case
  proof (cases "m = 0")
    case True
    then show ?thesis by (subst digits.simps) simp
  next
    case False
    with assms have "m div ?K < m"
      by simp
    then have IH: "foldl (debase_step c) 0 (digits ?A (m div ?K)) = word_of_nat (m div ?K)"
      by (rule less.IH)
    have "0 < ?K"
      using assms by linarith
    then have "m mod ?K < ?K"
      by simp
    with assms have idx: "IndexByte ?A (?A ! (m mod ?K)) = int (m mod ?K)"
      by (rule_tac IndexByte_nth)
    have "foldl (debase_step c) 0 (digits ?A m) =
        debase_step c (word_of_nat (m div ?K)) (?A ! (m mod ?K))"
      using False assms IH by (subst digits.simps) simp
    also have "\<dots> = word_of_nat (m div ?K) * word_of_nat ?K + word_of_nat (m mod ?K)"
      by (simp add: debase_step_def idx len64_def)
    also have "\<dots> = word_of_nat (m div ?K * ?K + m mod ?K)"
      by (simp only: of_nat_add of_nat_mult)
    finally show ?thesis
      by (simp only: div_mult_mod_eq)
  qed
qed

lemma debase_replicate_zero:
  assumes "distinct (Alphabet c)" "2 \<le> length (Alphabet c)"
  shows "foldl (debase_step c) 0 (replicate p (Alphabet c ! 0)) = 0"
proof (induction p)
  case 0
  then show ?case by simp
next
  case (Suc p)
  have "0 < length (Alphabet c)"
    using assms by linarith
  with assms have "IndexByte (Alphabet c) (Alphabet c ! 0) = int 0"
    by (rule_tac IndexByte_nth)
  then have "debase_step c 0 (Alphabet c ! 0) = 0"
    by (simp add: debase_step_def)
  with Suc show ?case
    by simp
qed

lemma debase_padded_digits:
  assumes "distinct (Alphabet c)" "2 \<le> length (Alphabet c)"
  shows "debase c (replicate p (Alphabet c ! 0) @ digits (Alphabet c) (unat x)) = x"
  using assms by (simp add: debase_def debase_replicate_zero debase_digits)

lemma enbase_loop_digits:
  assumes "distinct A" "2 \<le> length A"
  shows "enbase_loop A x chars = Some (Inr (digits A (unat x) @ chars))"
proof (induction "unat x" arbitrary: x chars rule: less_induct)
  case less
  have K: "unat (len64 A) = length A"
    using assms by (simp add: unat_len64_distinct)
  show ?case
  proof (cases "x = 0")
    case True
    then show ?thesis
      by (subst enbase_loop.simps, subst digits.simps) simp
  next
    case False
    then have pos: "0 < x" "0 < unat x"
      by (simp_all add: word_greater_zero_iff unat_gt_0)
    have nz: "len64 A \<noteq> 0"
      using K assms by (metis not_numeral_le_zero unat_0)
    have md: "unat (x mod len64 A) = unat x mod length A"
      by (simp add: unat_mod K)
    have dv: "unat (x div len64 A) = unat x div length A"
      by (simp add: unat_div K)
    have "unat x div length A < unat x"
      using pos assms by simp
    then have IH: "enbase_loop A (x div len64 A) (A ! (unat x mod length A) # chars) =
        Some (Inr (digits A (unat x div length A) @ A ! (unat x mod length A) # chars))"
      using less [of "x div len64 A"] dv by simp
    have "0 < length A"
      using assms by linarith
    then have inr: "unat x mod length A < length A"
      by simp
    have "enbase_loop A x chars =
        enbase_loop A (x div len64 A) (A ! (unat x mod length A) # chars)"
      using pos nz md inr by (subst enbase_loop.simps) simp
    also note IH
    also have "digits A (unat x div length A) @ A ! (unat x mod length A) # chars =
        digits A (unat x) @ chars"
      using pos assms by (subst (2) digits.simps) simp
    finally show ?thesis .
  qed
qed

lemma times_loop_fill:
  "length chars = unat n \<Longrightarrow> i \<le> n \<Longrightarrow>
   times_loop c n i chars = take (unat i) chars @ replicate (unat n - unat i) c"
proof (induction c n i chars rule: times_loop.induct)
  case (1 c n i chars)
  show ?case
  proof (cases "i < n")
    case False
    with "1.prems" have "i = n"
      by simp
    with "1.prems" show ?thesis
      by (subst times_loop.simps) simp
  next
    case True
    then have lt: "unat i < unat n"
      by (simp add: word_less_nat_alt)
    have suc: "unat (i + 1) = unat i + 1"
      using True by (rule unat_succ_lt)
    then have le: "i + 1 \<le> n"
      using lt by (simp add: word_le_nat_alt)
    have "times_loop c n i chars = times_loop c n (i + 1) (chars[unat i := c])"
      using True by (subst times_loop.simps) simp
    also have "\<dots> = take (unat (i + 1)) (chars[unat i := c]) @
        replicate (unat n - unat (i + 1)) c"
      using True "1.prems" le by (intro "1.IH") simp_all
    also have "take (unat (i + 1)) (chars[unat i := c]) = take (unat i) chars @ [c]"
      using lt "1.prems" by (simp add: suc take_Suc_conv_app_nth)
    also have "(take (unat i) chars @ [c]) @ replicate (unat n - unat (i + 1)) c =
        take (unat i) chars @ replicate (unat n - unat i) c"
      using lt by (simp add: suc replicate_Suc [symmetric] Suc_diff_Suc del: replicate_Suc)
    finally show ?thesis .
  qed
qed

lemma times_bytes_eq:
  "times_bytes rt c n =
     (if 2 ^ 63 \<le> n \<or> maxAlloc rt < unat n then Inl MakesliceLenOutOfRange
      else if storage rt < unat n then Inl OutOfMemory
      else Inr (replicate (unat n) c))"
  by (simp add: times_bytes_def times_loop_fill)

lemma times_bytes_returns:
  "times_bytes rt c n = Inr p \<longleftrightarrow> can_allocate rt (unat n) \<and> p = replicate (unat n) c"
  by (auto simp: times_bytes_eq can_allocate_def word_le_nat_alt)

lemma pad_no_wrap:
  assumes "length ds \<le> 64" "length ds \<le> unat (L :: uint64)"
  shows "unat (L - len64 ds) = unat L - length ds"
proof -
  have len: "unat (len64 ds) = length ds"
    using assms(1) by (simp add: unat_len64)
  then have "len64 ds \<le> L"
    using assms(2) by (simp add: word_le_nat_alt)
  then show ?thesis
    by (simp add: unat_sub len)
qed

lemma pad_wraps:
  assumes "length ds \<le> 64" "unat (L :: uint64) < length ds"
  shows "2 ^ 63 \<le> L - len64 ds"
proof -
  have len: "unat (len64 ds) = length ds"
    using assms(1) by (simp add: unat_len64)
  have "unat (L - len64 ds) = unat L + 2 ^ 64 - length ds"
    using assms(2) by (simp add: unat_sub_if_size len word_size)
  with assms show ?thesis
    by (simp add: word_le_nat_alt)
qed

lemma leftPad_returns:
  assumes "length ds \<le> 64"
  shows "leftPad rt ds L z = Inr body \<longleftrightarrow>
     length ds \<le> unat L \<and> can_allocate rt (unat L - length ds) \<and>
     body = replicate (unat L - length ds) z @ ds"
proof (cases "length ds \<le> unat L")
  case True
  with assms have "unat (L - len64 ds) = unat L - length ds"
    by (rule pad_no_wrap)
  with True show ?thesis
    by (auto simp: leftPad_def times_bytes_eq can_allocate_def word_le_nat_alt)
next
  case False
  with assms have "2 ^ 63 \<le> L - len64 ds"
    by (intro pad_wraps) simp_all
  with False show ?thesis
    by (simp add: leftPad_def times_bytes_eq)
qed

lemma leftPad_wraps:
  assumes "length ds \<le> 64" "unat (L :: uint64) < length ds"
  shows "leftPad rt ds L z = Inl MakesliceLenOutOfRange"
  using pad_wraps [OF assms] by (simp add: leftPad_def times_bytes_eq)

lemma enbase_valid:
  assumes "valid_config c"
  shows "enbase rt c x L =
     Some (leftPad rt (digits (Alphabet c) (unat x)) L (Alphabet c ! 0))"
proof -
  from assms have A: "distinct (Alphabet c)" "2 \<le> length (Alphabet c)"
    by (simp_all add: valid_config_def)
  then have "0 < length (Alphabet c)"
    by linarith
  with A show ?thesis
    by (simp add: enbase_def enbase_loop_digits at_index_def)
qed

lemma checksum_valid:
  assumes "valid_config c"
  shows "checksum c n = Inr (Alphabet c ! unat (n mod Checksum c))"
proof -
  from assms have M: "0 < Checksum c" "unat (Checksum c) \<le> length (Alphabet c)"
    by (simp_all add: valid_config_def)
  then have "0 < unat (Checksum c)"
    by (simp add: word_less_nat_alt)
  then have "unat n mod unat (Checksum c) < unat (Checksum c)"
    by simp
  with M show ?thesis
    by (simp add: checksum_def at_index_def unat_mod)
qed

lemma Decode_valid:
  assumes "valid_config c"
  shows "Decode c (h # body) =
     Inr (scramble c (debase c body),
          Alphabet c ! unat (scramble c (debase c body) mod Checksum c) = h)"
  using assms by (simp add: Decode_def Let_def checksum_valid)

lemma Encode_valid:
  assumes "valid_config c"
  shows "Encode rt c n L =
     (case leftPad rt (digits (Alphabet c) (unat (scramble c n))) L (Alphabet c ! 0) of
        Inl e \<Rightarrow> Some (Inl e)
      | Inr body \<Rightarrow>
          Some (Inr (string_of_byte (Alphabet c ! unat (n mod Checksum c)) @ body, True)))"
  using assms by (simp add: Encode_def checksum_valid enbase_valid split: sum.splits)

lemma length_digits_le_64:
  "valid_config c \<Longrightarrow> length (digits (Alphabet c) (unat (x :: uint64))) \<le> 64"
  by (simp add: valid_config_def length_digits ndigits_unat_le_64)

text \<open>
  When \<open>Encode\<close> returns under a valid configuration, the flag is \<open>true\<close>, the digits
  of the scrambled value fit in \<open>L\<close>, the runtime could deliver the padding, and the
  string is the head, the padding and the digits; and conversely.
\<close>

lemma Encode_returns_iff:
  assumes "valid_config c"
  shows "Encode rt c n L = Some (Inr (s, ok)) \<longleftrightarrow>
     ok \<and>
     ndigits (length (Alphabet c)) (unat (scramble c n)) \<le> unat L \<and>
     can_allocate rt (unat L - ndigits (length (Alphabet c)) (unat (scramble c n))) \<and>
     s = string_of_byte (Alphabet c ! unat (n mod Checksum c)) @
         replicate (unat L - ndigits (length (Alphabet c)) (unat (scramble c n)))
           (Alphabet c ! 0) @
         digits (Alphabet c) (unat (scramble c n))"
proof -
  let ?ds = "digits (Alphabet c) (unat (scramble c n))"
  have len: "length ?ds \<le> 64"
    using assms by (rule length_digits_le_64)
  show ?thesis
  proof (cases "leftPad rt ?ds L (Alphabet c ! 0)")
    case (Inl e)
    then have "\<not> (length ?ds \<le> unat L \<and> can_allocate rt (unat L - length ?ds))"
      using leftPad_returns [OF len, of rt L "Alphabet c ! 0"
          "replicate (unat L - length ?ds) (Alphabet c ! 0) @ ?ds"]
      by auto
    with Inl assms show ?thesis
      by (auto simp: Encode_valid length_digits)
  next
    case (Inr body)
    then have "length ?ds \<le> unat L" "can_allocate rt (unat L - length ?ds)"
      "body = replicate (unat L - length ?ds) (Alphabet c ! 0) @ ?ds"
      using leftPad_returns [OF len, of rt L "Alphabet c ! 0" body] by simp_all
    with Inr assms show ?thesis
      by (auto simp: Encode_valid length_digits)
  qed
qed

lemma Encode_returns:
  assumes "valid_config c"
    and "ndigits (length (Alphabet c)) (unat (scramble c n)) \<le> unat L"
    and "can_allocate rt (unat L - ndigits (length (Alphabet c)) (unat (scramble c n)))"
  shows "Encode rt c n L =
     Some (Inr (string_of_byte (Alphabet c ! unat (n mod Checksum c)) @
                replicate (unat L - ndigits (length (Alphabet c)) (unat (scramble c n)))
                  (Alphabet c ! 0) @
                digits (Alphabet c) (unat (scramble c n)), True))"
  using assms by (simp add: Encode_returns_iff)

lemma Decode_padded_digits:
  assumes "valid_config c"
  shows "Decode c (h # replicate p (Alphabet c ! 0) @ digits (Alphabet c) (unat (scramble c n))) =
     Inr (n, Alphabet c ! unat (n mod Checksum c) = h)"
proof -
  from assms have A: "distinct (Alphabet c)" "2 \<le> length (Alphabet c)" "BlockSize c < 64"
    by (simp_all add: valid_config_def)
  then have "scramble c (debase c (replicate p (Alphabet c ! 0) @
      digits (Alphabet c) (unat (scramble c n)))) = n"
    by (simp add: debase_padded_digits scramble_twice)
  with assms show ?thesis
    by (simp add: Decode_valid)
qed

lemma string_of_byte_ascii: "(of_char h :: nat) < 128 \<Longrightarrow> string_of_byte h = [h]"
  by (simp add: string_of_byte_def)

subsection \<open>Evaluation at the default configuration\<close>

lemmas default_config =
  DefaultEncoder_def DefaultAlphabet_def DefaultBlockSize_def DefaultChecksum_def

lemma DefaultEncoder_fields:
  "Alphabet DefaultEncoder = DefaultAlphabet"
  "BlockSize DefaultEncoder = 24"
  "Checksum DefaultEncoder = 29"
  by (simp_all add: DefaultEncoder_def DefaultBlockSize_def DefaultChecksum_def)

lemma length_DefaultAlphabet: "length DefaultAlphabet = 31"
  by (simp add: DefaultAlphabet_def)

lemma HighByteEncoder_fields:
  "Alphabet HighByteEncoder = [CHR 0xC8, CHR ''a'']"
  "BlockSize HighByteEncoder = 0"
  "Checksum HighByteEncoder = 2"
  "length (Alphabet HighByteEncoder) = 2"
  by (simp_all add: HighByteEncoder_def)

lemma valid_DefaultEncoder: "valid_config DefaultEncoder"
  by (simp add: valid_config_def default_config)

lemma valid_HighByteEncoder: "valid_config HighByteEncoder"
  by (simp add: valid_config_def HighByteEncoder_def)

lemma can_allocate_0: "can_allocate rt 0"
  by (simp add: can_allocate_def)

lemma can_allocate_Amd64Runtime_1: "can_allocate Amd64Runtime (Suc 0)"
  by (simp add: can_allocate_def Amd64Runtime_def)

lemma scramble_Default_1: "scramble DefaultEncoder 1 = 8388608"
  by (simp add: scramble_def scramble_loop.simps default_config)

lemma scramble_Default_8388608: "scramble DefaultEncoder 8388608 = 1"
  by (simp add: scramble_def scramble_loop.simps default_config)

lemma ndigits_31_8388608: "ndigits 31 8388608 = 5"
  by (simp add: ndigits.simps)

lemma digits_Default_8388608: "digits DefaultAlphabet 8388608 = ''hqyf7''"
  by (simp add: digits.simps length_DefaultAlphabet) (simp add: DefaultAlphabet_def)

lemma ndigits_Default_1:
  "ndigits (length (Alphabet DefaultEncoder)) (unat (scramble DefaultEncoder 1)) = 5"
  by (simp add: DefaultEncoder_fields length_DefaultAlphabet scramble_Default_1
        ndigits_31_8388608)

lemma Encode_Default_1_5: "Encode rt DefaultEncoder 1 5 = Some (Inr (''fhqyf7'', True))"
proof -
  have "Encode rt DefaultEncoder 1 5 =
      Some (Inr (string_of_byte (DefaultAlphabet ! unat ((1::uint64) mod 29)) @
        replicate (unat (5::uint64) - ndigits 31 8388608) (DefaultAlphabet ! 0) @
        digits DefaultAlphabet 8388608, True))"
    using Encode_returns [OF valid_DefaultEncoder, of 1 5 rt]
    by (simp add: DefaultEncoder_fields length_DefaultAlphabet scramble_Default_1
          ndigits_31_8388608 can_allocate_0)
  then show ?thesis
    by (simp add: ndigits_31_8388608 digits_Default_8388608)
      (simp add: DefaultAlphabet_def string_of_byte_def)
qed

lemma debase_Default_hqyf7: "debase DefaultEncoder ''hqyf7'' = 8388608"
  by (simp add: debase_def debase_step_def IndexByte_def len64_def default_config)

lemma Decode_Default_fhqyf7: "Decode DefaultEncoder ''fhqyf7'' = Inr (1, True)"
  by (simp add: Decode_valid valid_DefaultEncoder debase_Default_hqyf7 scramble_Default_8388608)
    (simp add: default_config)

lemma scramble_Default_2: "scramble DefaultEncoder 2 = 4194304"
  by (simp add: scramble_def scramble_loop.simps default_config)

lemma ndigits_31_4194304: "ndigits 31 4194304 = 5"
  by (simp add: ndigits.simps)

lemma digits_Default_4194304: "digits DefaultAlphabet 4194304 = ''rb2br''"
  by (simp add: digits.simps length_DefaultAlphabet) (simp add: DefaultAlphabet_def)

lemma Encode_Default_2_5: "Encode rt DefaultEncoder 2 5 = Some (Inr (''qrb2br'', True))"
proof -
  have "Encode rt DefaultEncoder 2 5 =
      Some (Inr (string_of_byte (DefaultAlphabet ! unat ((2::uint64) mod 29)) @
        replicate (unat (5::uint64) - ndigits 31 4194304) (DefaultAlphabet ! 0) @
        digits DefaultAlphabet 4194304, True))"
    using Encode_returns [OF valid_DefaultEncoder, of 2 5 rt]
    by (simp add: DefaultEncoder_fields length_DefaultAlphabet scramble_Default_2
          ndigits_31_4194304 can_allocate_0)
  then show ?thesis
    by (simp add: ndigits_31_4194304 digits_Default_4194304)
      (simp add: DefaultAlphabet_def string_of_byte_def)
qed

lemma scramble_0: "BlockSize c < 64 \<Longrightarrow> scramble c 0 = 0"
  by (rule bit_eqI) (simp add: scramble_bit)

lemma Encode_Default_0_0: "Encode rt DefaultEncoder 0 0 = Some (Inr (''3'', True))"
proof -
  have s0: "scramble DefaultEncoder 0 = 0"
    by (simp add: scramble_0 DefaultEncoder_fields)
  have nd: "ndigits (length (Alphabet DefaultEncoder)) (unat (scramble DefaultEncoder 0)) = 0"
    by (simp add: s0 ndigits.simps)
  show ?thesis
    using Encode_returns [OF valid_DefaultEncoder, of 0 0 rt, unfolded nd]
    by (simp add: s0 digits.simps can_allocate_0) (simp add: default_config string_of_byte_def)
qed

lemma scramble_HighByte: "scramble HighByteEncoder n = n"
  by (simp add: scramble_def scramble_loop.simps HighByteEncoder_def)

lemma ndigits_HighByte_0:
  "ndigits (length (Alphabet HighByteEncoder)) (unat (scramble HighByteEncoder 0)) = 0"
  by (simp add: scramble_HighByte ndigits.simps)

lemma Encode_HighByte_0_0:
  "Encode rt HighByteEncoder 0 0 = Some (Inr ([CHR 0xC3, CHR 0x88], True))"
  using Encode_returns [OF valid_HighByteEncoder, of 0 0 rt, unfolded ndigits_HighByte_0]
  by (simp add: HighByteEncoder_fields scramble_HighByte digits.simps string_of_byte_def
        can_allocate_0)

lemma Encode_HighByte_0_1:
  "Encode Amd64Runtime HighByteEncoder 0 1 =
     Some (Inr ([CHR 0xC3, CHR 0x88, CHR 0xC8], True))"
  using Encode_returns [OF valid_HighByteEncoder, of 0 1 Amd64Runtime,
      unfolded ndigits_HighByte_0]
  by (simp add: HighByteEncoder_fields scramble_HighByte digits.simps string_of_byte_def
        can_allocate_Amd64Runtime_1)

lemma Decode_HighByte_C3_88_C8:
  "Decode HighByteEncoder [CHR 0xC3, CHR 0x88, CHR 0xC8] = Inr (18446744073709551614, False)"
proof -
  have "debase HighByteEncoder [CHR 0x88, CHR 0xC8] = 18446744073709551614"
    by (simp add: debase_def debase_step_def IndexByte_def len64_def HighByteEncoder_def)
  then show ?thesis
    by (simp add: Decode_valid valid_HighByteEncoder scramble_HighByte)
      (simp add: HighByteEncoder_def)
qed

section \<open>Padding\<close>

lemma enbase_exact_length:
  assumes "valid_config c" "unat L = ndigits (length (Alphabet c)) (unat x)"
  shows "enbase rt c x L = Some (Inr (digits (Alphabet c) (unat x)))"
proof -
  let ?ds = "digits (Alphabet c) (unat x)"
  have "length ?ds \<le> 64"
    using assms(1) by (rule length_digits_le_64)
  then have "leftPad rt ?ds L (Alphabet c ! 0) = Inr ?ds"
    using assms(2) by (simp add: leftPad_returns length_digits can_allocate_0)
  then show ?thesis
    using assms(1) by (simp add: enbase_valid)
qed

lemma enbase_longer_than_minLength:
  assumes "valid_config c" "unat L < ndigits (length (Alphabet c)) (unat x)"
  shows "enbase rt c x L = Some (Inl MakesliceLenOutOfRange)"
proof -
  let ?ds = "digits (Alphabet c) (unat x)"
  have "length ?ds \<le> 64"
    using assms(1) by (rule length_digits_le_64)
  moreover have "unat L < length ?ds"
    using assms(2) by (simp add: length_digits)
  ultimately have "leftPad rt ?ds L (Alphabet c ! 0) = Inl MakesliceLenOutOfRange"
    by (rule leftPad_wraps)
  then show ?thesis
    using assms(1) by (simp add: enbase_valid)
qed

lemma scramble_Default_33554432: "scramble DefaultEncoder 33554432 = 33554432"
  by (simp add: scramble_def scramble_loop.simps default_config)

lemma ndigits_Default_33554432:
  "ndigits (length (Alphabet DefaultEncoder)) 33554432 = 6"
  by (simp add: DefaultEncoder_fields length_DefaultAlphabet ndigits.simps)

lemma Encode_Default_33554432_MinLength:
  "Encode rt DefaultEncoder 33554432 MinLength = Some (Inl MakesliceLenOutOfRange)"
proof -
  have "enbase rt DefaultEncoder 33554432 MinLength = Some (Inl MakesliceLenOutOfRange)"
    by (intro enbase_longer_than_minLength valid_DefaultEncoder)
      (simp add: ndigits_Default_33554432 MinLength_def)
  then show ?thesis
    using valid_DefaultEncoder
    by (simp add: Encode_def checksum_valid scramble_Default_33554432)
qed

text \<open>
  Claim C2 at the input \<open>x = 1\<close>, \<open>minLength = 0\<close> of the default configuration: the
  natural representation \<open>f\<close> has length 1, which is at least \<open>minLength\<close>, and
  \<open>enbase\<close> does not return it: the padding count \<open>0 - 1\<close> wraps to \<open>2 ^ 64 - 1\<close> and
  \<open>make\<close> panics, on every runtime.  So does \<open>Encode\<close> at \<open>n = 33554432\<close> with the default
  \<open>MinLength\<close>.
\<close>

theorem enbase_panics_when_longer_than_minLength:
  "valid_config DefaultEncoder \<and>
   digits (Alphabet DefaultEncoder) (unat (1::uint64)) = ''f'' \<and>
   unat (0::uint64) \<le> length ''f'' \<and>
   (0::uint64) - len64 ''f'' = 18446744073709551615 \<and>
   enbase rt DefaultEncoder 1 0 = Some (Inl MakesliceLenOutOfRange) \<and>
   Encode rt DefaultEncoder 33554432 MinLength = Some (Inl MakesliceLenOutOfRange)"
proof -
  have d: "digits (Alphabet DefaultEncoder) (unat (1::uint64)) = ''f''"
    by (simp add: DefaultEncoder_fields digits.simps length_DefaultAlphabet)
      (simp add: DefaultAlphabet_def)
  have "ndigits (length (Alphabet DefaultEncoder)) (unat (1::uint64)) = 1"
    by (simp add: DefaultEncoder_fields length_DefaultAlphabet ndigits.simps)
  then have e: "enbase rt DefaultEncoder 1 0 = Some (Inl MakesliceLenOutOfRange)"
    by (intro enbase_longer_than_minLength valid_DefaultEncoder) simp
  from d e valid_DefaultEncoder show ?thesis
    by (simp add: len64_def Encode_Default_33554432_MinLength)
qed

section \<open>Round trip\<close>

text \<open>
  Whenever \<open>Encode\<close> returns a string under a valid configuration whose checksum symbol
  for \<open>n\<close> is an ASCII byte, \<open>Decode\<close> of that string returns \<open>(n, true)\<close>.
\<close>

lemma Decode_Encode:
  assumes "valid_config c"
    and "(of_char (Alphabet c ! unat (n mod Checksum c)) :: nat) < 128"
    and "Encode rt c n L = Some (Inr (s, ok))"
  shows "Decode c s = Inr (n, True)"
  using assms by (simp add: Encode_returns_iff string_of_byte_ascii Decode_padded_digits)

text \<open>
  Claim C1 at two inputs.  With the default encoder, \<open>Encode 33554432 MinLength\<close>
  returns no string to decode: the scrambled value has six digits, the padding count
  of \<open>leftPad\<close> wraps around and \<open>make\<close> panics, on every runtime.  With the valid
  configuration \<open>HighByteEncoder\<close>, \<open>Encode 0 1\<close> returns: \<open>string(...)\<close> writes the checksum
  symbol \<open>0xC8\<close> as the two bytes \<open>0xC3 0x88\<close>, and \<open>Decode\<close>, which reads one byte as the
  head, returns \<open>(2 ^ 64 - 2, false)\<close> for that string and not \<open>(0, true)\<close>.
\<close>

theorem roundtrip_fails:
  "valid_config DefaultEncoder \<and>
   Encode rt DefaultEncoder 33554432 MinLength = Some (Inl MakesliceLenOutOfRange) \<and>
   valid_config HighByteEncoder \<and>
   Encode Amd64Runtime HighByteEncoder 0 1 =
     Some (Inr ([CHR 0xC3, CHR 0x88, CHR 0xC8], True)) \<and>
   Decode HighByteEncoder [CHR 0xC3, CHR 0x88, CHR 0xC8] =
     Inr (18446744073709551614, False)"
  using valid_DefaultEncoder valid_HighByteEncoder
  by (simp add: Encode_Default_33554432_MinLength Encode_HighByte_0_1 Decode_HighByte_C3_88_C8)

section \<open>The checksum head\<close>

lemma length_string_of_byte:
  "length (string_of_byte h) = (if (of_char h :: nat) < 128 then 1 else 2)"
  by (simp add: string_of_byte_def)

text \<open>
  Claim C9.  Under a valid configuration, let \<open>Encode n minLength\<close> return the string
  \<open>s\<close> and let \<open>h\<close> be the checksum symbol of \<open>n\<close>.  The first character of \<open>s\<close> is the
  one \<open>string(h)\<close> wrote; when it is replaced by any other alphabet symbol \<open>h'\<close>, \<open>Decode\<close>
  of the altered string returns \<open>ok = false\<close> (with the value \<open>n\<close>).
\<close>

theorem replaced_head_is_rejected:
  assumes "valid_config c"
    and "Encode rt c n minLength = Some (Inr (s, ok))"
    and "checksum c n = Inr h"
    and "h' \<in> set (Alphabet c)"
    and "h' \<noteq> h"
  shows "take (length (string_of_byte h)) s = string_of_byte h \<and>
         Decode c (h' # drop (length (string_of_byte h)) s) = Inr (n, False)"
proof -
  from assms(1,3) have h: "Alphabet c ! unat (n mod Checksum c) = h"
    by (simp add: checksum_valid)
  let ?body = "replicate (unat minLength - ndigits (length (Alphabet c)) (unat (scramble c n)))
      (Alphabet c ! 0) @ digits (Alphabet c) (unat (scramble c n))"
  from assms(1,2) have s: "s = string_of_byte h @ ?body"
    by (simp add: Encode_returns_iff h)
  have "Decode c (h' # ?body) = Inr (n, False)"
    using assms(1,5) by (simp add: Decode_padded_digits h)
  then show ?thesis
    by (simp add: s)
qed

theorem replaced_head_is_rejected_witness:
  "valid_config DefaultEncoder \<and>
   Encode Amd64Runtime DefaultEncoder 1 5 = Some (Inr (''fhqyf7'', True)) \<and>
   checksum DefaultEncoder 1 = Inr (CHR ''f'') \<and>
   CHR ''q'' \<in> set (Alphabet DefaultEncoder) \<and>
   CHR ''q'' \<noteq> CHR ''f'' \<and>
   take (length (string_of_byte (CHR ''f''))) ''fhqyf7'' = string_of_byte (CHR ''f'') \<and>
   Decode DefaultEncoder ''qhqyf7'' = Inr (1, False) \<and>
   valid_config HighByteEncoder \<and>
   Encode Amd64Runtime HighByteEncoder 0 0 = Some (Inr ([CHR 0xC3, CHR 0x88], True)) \<and>
   checksum HighByteEncoder 0 = Inr (CHR 0xC8) \<and>
   CHR ''a'' \<in> set (Alphabet HighByteEncoder) \<and>
   CHR ''a'' \<noteq> CHR 0xC8 \<and>
   take (length (string_of_byte (CHR 0xC8))) [CHR 0xC3, CHR 0x88] = string_of_byte (CHR 0xC8) \<and>
   Decode HighByteEncoder ''a'' = Inr (0, False)"
proof -
  have c1: "checksum DefaultEncoder 1 = Inr (CHR ''f'')"
    using valid_DefaultEncoder by (simp add: checksum_valid) (simp add: default_config)
  have m1: "CHR ''q'' \<in> set (Alphabet DefaultEncoder)"
    by (simp add: default_config)
  have d1: "CHR ''q'' \<noteq> CHR ''f''"
    by simp
  have l1: "length (string_of_byte (CHR ''f'')) = 1"
    by (simp add: string_of_byte_def)
  from replaced_head_is_rejected
    [OF valid_DefaultEncoder Encode_Default_1_5 [of Amd64Runtime] c1 m1 d1]
  have r1: "take (length (string_of_byte (CHR ''f''))) ''fhqyf7'' = string_of_byte (CHR ''f'')"
    "Decode DefaultEncoder ''qhqyf7'' = Inr (1, False)"
    by (simp_all add: l1)
  have c2: "checksum HighByteEncoder 0 = Inr (CHR 0xC8)"
    using valid_HighByteEncoder by (simp add: checksum_valid) (simp add: HighByteEncoder_def)
  have m2: "CHR ''a'' \<in> set (Alphabet HighByteEncoder)"
    by (simp add: HighByteEncoder_def)
  have d2: "CHR ''a'' \<noteq> CHR 0xC8"
    by simp
  have l2: "length (string_of_byte (CHR 0xC8)) = 2"
    by (simp add: string_of_byte_def)
  from replaced_head_is_rejected
    [OF valid_HighByteEncoder Encode_HighByte_0_0 [of Amd64Runtime] c2 m2 d2]
  have r2: "take (length (string_of_byte (CHR 0xC8))) [CHR 0xC3, CHR 0x88] =
      string_of_byte (CHR 0xC8)"
    "Decode HighByteEncoder ''a'' = Inr (0, False)"
    by (simp_all add: l2)
  from valid_DefaultEncoder Encode_Default_1_5 [of Amd64Runtime] c1 m1 d1 r1
    valid_HighByteEncoder Encode_HighByte_0_0 [of Amd64Runtime] c2 m2 d2 r2
  show ?thesis
    by blast
qed

section \<open>No collisions\<close>

text \<open>
  Claim C7.  Under one valid configuration and one \<open>minLength\<close>, \<open>Encode\<close> never gives
  the same string for two inputs: for \<open>n1 \<noteq> n2\<close>, the strings that \<open>Encode n1 minLength\<close>
  and \<open>Encode n2 minLength\<close> return are different.
\<close>

theorem Encode_never_collides:
  assumes "valid_config c"
    and "n1 \<noteq> n2"
    and "Encode rt c n1 minLength = Some (Inr (s1, ok1))"
    and "Encode rt c n2 minLength = Some (Inr (s2, ok2))"
  shows "s1 \<noteq> s2"
proof
  assume eq: "s1 = s2"
  let ?K = "length (Alphabet c)"
  let ?h = "\<lambda>n. string_of_byte (Alphabet c ! unat (n mod Checksum c))"
  let ?b = "\<lambda>n. replicate (unat minLength - ndigits ?K (unat (scramble c n))) (Alphabet c ! 0) @
      digits (Alphabet c) (unat (scramble c n))"
  from assms have A: "distinct (Alphabet c)" "2 \<le> ?K" "BlockSize c < 64"
    by (simp_all add: valid_config_def)
  from assms(1,3) have 1: "ndigits ?K (unat (scramble c n1)) \<le> unat minLength"
    "s1 = ?h n1 @ ?b n1"
    by (simp_all add: Encode_returns_iff)
  from assms(1,4) have 2: "ndigits ?K (unat (scramble c n2)) \<le> unat minLength"
    "s2 = ?h n2 @ ?b n2"
    by (simp_all add: Encode_returns_iff)
  have "length (?b n1) = length (?b n2)"
    using 1(1) 2(1) by (simp add: length_digits)
  moreover have "?h n1 @ ?b n1 = ?h n2 @ ?b n2"
    using eq 1(2) 2(2) by simp
  ultimately have "?b n1 = ?b n2"
    by (metis append_eq_append_conv)
  then have "debase c (?b n1) = debase c (?b n2)"
    by simp
  then have "scramble c n1 = scramble c n2"
    using A by (simp add: debase_padded_digits)
  then have "scramble c (scramble c n1) = scramble c (scramble c n2)"
    by simp
  then have "n1 = n2"
    using A by (simp add: scramble_twice)
  with assms(2) show False
    by simp
qed

theorem Encode_never_collides_witness:
  "valid_config DefaultEncoder \<and> (1::uint64) \<noteq> 2 \<and>
   Encode Amd64Runtime DefaultEncoder 1 5 = Some (Inr (''fhqyf7'', True)) \<and>
   Encode Amd64Runtime DefaultEncoder 2 5 = Some (Inr (''qrb2br'', True)) \<and>
   ''fhqyf7'' \<noteq> ''qrb2br''"
proof -
  have h2: "(1::uint64) \<noteq> 2"
    by simp
  from Encode_never_collides [OF valid_DefaultEncoder h2
      Encode_Default_1_5 [of Amd64Runtime] Encode_Default_2_5 [of Amd64Runtime]]
    valid_DefaultEncoder h2 Encode_Default_1_5 [of Amd64Runtime]
    Encode_Default_2_5 [of Amd64Runtime]
  show ?thesis
    by blast
qed

section \<open>The flag returned by Encode\<close>

lemma Encode_err_flag:
  "Encode_err rt c n L =
     (case Encode rt c n L of
        None \<Rightarrow> None
      | Some (Inl e) \<Rightarrow> Some (Inl e)
      | Some (Inr (s, ok)) \<Rightarrow> Some (Inr (s, False)))"
  by (simp add: Encode_err_def Encode_def split: sum.splits option.splits)

lemma Decode_err_flag:
  "Decode_err c s =
     (case Decode c s of Inl e \<Rightarrow> Inl e | Inr (v, ok) \<Rightarrow> Inr (v, \<not> ok))"
  by (simp add: Decode_err_def Decode_def Let_def split: list.splits sum.splits)

text \<open>
  Claim C3, as amended.  For a valid configuration, when the scrambled value has at
  most \<open>minLength\<close> digits and the runtime can deliver the padding (\<open>make\<close> neither panics
  nor runs out of storage), \<open>Encode\<close> of package \<open>idencoder\<close> returns with \<open>true\<close> as its
  second result, and the earlier \<open>package main\<close> copy returns the same string with
  \<open>false\<close>, its flag being an error flag.
\<close>

theorem Encode_second_result:
  assumes "valid_config c"
    and "ndigits (length (Alphabet c)) (unat (scramble c n)) \<le> unat minLength"
    and "can_allocate rt
           (unat minLength - ndigits (length (Alphabet c)) (unat (scramble c n)))"
  shows "\<exists>s. Encode rt c n minLength = Some (Inr (s, True)) \<and>
             Encode_err rt c n minLength = Some (Inr (s, False))"
  using Encode_returns [OF assms] by (simp add: Encode_err_flag)

theorem Encode_second_result_witness:
  "valid_config DefaultEncoder \<and>
   ndigits (length (Alphabet DefaultEncoder)) (unat (scramble DefaultEncoder 1)) \<le> unat (5::uint64) \<and>
   can_allocate Amd64Runtime
     (unat (5::uint64) - ndigits (length (Alphabet DefaultEncoder)) (unat (scramble DefaultEncoder 1))) \<and>
   Encode Amd64Runtime DefaultEncoder 1 5 = Some (Inr (''fhqyf7'', True)) \<and>
   Encode_err Amd64Runtime DefaultEncoder 1 5 = Some (Inr (''fhqyf7'', False))"
proof -
  have h2: "ndigits (length (Alphabet DefaultEncoder)) (unat (scramble DefaultEncoder 1)) \<le> unat (5::uint64)"
    and h3: "can_allocate Amd64Runtime
      (unat (5::uint64) - ndigits (length (Alphabet DefaultEncoder)) (unat (scramble DefaultEncoder 1)))"
    unfolding ndigits_Default_1 by (simp_all add: can_allocate_0)
  from Encode_second_result [OF valid_DefaultEncoder h2 h3]
  obtain s where "Encode Amd64Runtime DefaultEncoder 1 5 = Some (Inr (s, True))"
    and "Encode_err Amd64Runtime DefaultEncoder 1 5 = Some (Inr (s, False))"
    by blast
  then have "Encode Amd64Runtime DefaultEncoder 1 5 = Some (Inr (''fhqyf7'', True))"
    and "Encode_err Amd64Runtime DefaultEncoder 1 5 = Some (Inr (''fhqyf7'', False))"
    by (simp_all add: Encode_Default_1_5)
  with valid_DefaultEncoder h2 h3 show ?thesis
    by blast
qed

text \<open>
  Claim C3 as stated fails on the \<open>package main\<close> copy of \<open>Encode\<close>: its second result
  is \<open>false\<close>.
\<close>

theorem Encode_err_returns_false:
  "valid_config DefaultEncoder \<and>
   Encode_err Amd64Runtime DefaultEncoder 1 5 = Some (Inr (''fhqyf7'', False))"
  using valid_DefaultEncoder by (simp add: Encode_err_flag Encode_Default_1_5)

section \<open>Short inputs to Decode\<close>

text \<open>
  Claim C4, as amended.  For a valid configuration and an input of exactly one byte
  \<open>h\<close>, \<open>Decode\<close> does not panic and returns the value 0 with \<open>ok\<close> true exactly when
  \<open>h\<close> is the first alphabet symbol.
\<close>

theorem Decode_single_byte:
  assumes "valid_config c"
  shows "Decode c [h] = Inr (0, Alphabet c ! 0 = h)"
proof -
  from assms have "BlockSize c < 64"
    by (simp add: valid_config_def)
  then have "scramble c (debase c []) = 0"
    by (simp add: debase_def scramble_0)
  with assms show ?thesis
    by (simp add: Decode_valid)
qed

theorem Decode_single_byte_witness:
  "valid_config DefaultEncoder \<and> Decode DefaultEncoder ''f'' = Inr (0, False)"
proof -
  from Decode_single_byte [OF valid_DefaultEncoder, of "CHR ''f''"]
  have "Decode DefaultEncoder ''f'' = Inr (0, False)"
    by (simp add: default_config)
  with valid_DefaultEncoder show ?thesis
    by simp
qed

text \<open>
  Claim C4 as stated fails at the one-byte string \<open>3\<close>, which is what \<open>Encode 0 0\<close>
  returns under the default configuration: \<open>Decode\<close> reports success.
\<close>

theorem Decode_single_byte_success:
  "valid_config DefaultEncoder \<and> length ''3'' = 1 \<and>
   Encode Amd64Runtime DefaultEncoder 0 0 = Some (Inr (''3'', True)) \<and>
   Decode DefaultEncoder ''3'' = Inr (0, True)"
proof -
  have s0: "scramble DefaultEncoder 0 = 0"
    by (simp add: scramble_0 DefaultEncoder_fields)
  have "Decode DefaultEncoder ''3'' = Inr (0, True)"
    using valid_DefaultEncoder by (simp add: Decode_valid debase_def s0) (simp add: default_config)
  then show ?thesis
    using valid_DefaultEncoder by (simp add: Encode_Default_0_0)
qed

section \<open>Bytes outside the alphabet\<close>

text \<open>
  Claim C5, as amended.  For a valid configuration and an input whose tail holds a
  byte that is not in the alphabet, \<open>IndexByte\<close> gives \<open>-1\<close> for that byte, the fold
  of \<open>debase\<close> takes it as the digit \<open>uint64(-1)\<close>, and \<open>Decode\<close> reports no error of
  its own: it returns the scrambled fold of the tail, with \<open>ok\<close> true exactly when the
  checksum symbol of that value is the head.
\<close>

theorem Decode_foreign_byte:
  assumes "valid_config c"
    and "b \<in> set body"
    and "b \<notin> set (Alphabet c)"
  shows "IndexByte (Alphabet c) b = - 1 \<and>
         debase_step c r b = r * len64 (Alphabet c) - 1 \<and>
         Decode c (h # body) =
           Inr (scramble c (debase c body),
                checksum c (scramble c (debase c body)) = Inr h)"
  using assms by (simp add: IndexByte_absent debase_step_def Decode_valid checksum_valid)

lemma debase_Default_bang: "debase DefaultEncoder ''!'' = 18446744073709551615"
  by (simp add: debase_def debase_step_def IndexByte_def len64_def default_config)

lemma scramble_Default_max: "scramble DefaultEncoder 18446744073709551615 = 18446744073709551615"
  by (simp add: scramble_def scramble_loop.simps default_config)

lemma Decode_Default_j_bang: "Decode DefaultEncoder ''j!'' = Inr (18446744073709551615, True)"
  using valid_DefaultEncoder
  by (simp add: Decode_valid debase_Default_bang scramble_Default_max) (simp add: default_config)

theorem Decode_foreign_byte_witness:
  "valid_config DefaultEncoder \<and> CHR ''!'' \<in> set ''!'' \<and>
   CHR ''!'' \<notin> set (Alphabet DefaultEncoder) \<and>
   IndexByte (Alphabet DefaultEncoder) (CHR ''!'') = - 1 \<and>
   debase_step DefaultEncoder 0 (CHR ''!'') = 0 * len64 (Alphabet DefaultEncoder) - 1 \<and>
   Decode DefaultEncoder ''j!'' = Inr (18446744073709551615, True)"
proof -
  have h2: "CHR ''!'' \<in> set ''!''"
    by simp
  have h3: "CHR ''!'' \<notin> set (Alphabet DefaultEncoder)"
    by (simp add: default_config)
  from Decode_foreign_byte [OF valid_DefaultEncoder h2 h3, where h = "CHR ''j''" and r = 0]
  have "IndexByte (Alphabet DefaultEncoder) (CHR ''!'') = - 1"
    and "debase_step DefaultEncoder 0 (CHR ''!'') = 0 * len64 (Alphabet DefaultEncoder) - 1"
    and "Decode DefaultEncoder ''j!'' = Inr (18446744073709551615, True)"
    by (simp_all add: Decode_Default_j_bang)
  with valid_DefaultEncoder h2 h3 show ?thesis
    by blast
qed

text \<open>
  Claim C5 as stated fails at \<open>j!\<close>: the byte \<open>!\<close> is not in the alphabet and \<open>Decode\<close>
  returns \<open>2 ^ 64 - 1\<close> with \<open>ok = true\<close>.
\<close>

theorem Decode_accepts_foreign_byte:
  "valid_config DefaultEncoder \<and> CHR ''!'' \<in> set (tl ''j!'') \<and>
   CHR ''!'' \<notin> set (Alphabet DefaultEncoder) \<and>
   Decode DefaultEncoder ''j!'' = Inr (18446744073709551615, True)"
  using valid_DefaultEncoder by (simp add: Decode_Default_j_bang) (simp add: default_config)

section \<open>Wrap-around in debase\<close>

text \<open>
  Claim C10.  \<open>debase\<close> folds in 64-bit arithmetic, so it is not injective on strings
  over the alphabet: in base 31 the 14 symbols \<open>f3333333333333\<close> stand for \<open>31 ^ 13\<close>,
  which is \<open>2 ^ 64\<close> more than the value of \<open>3zpkjcagecs628\<close>, and \<open>debase\<close> gives the
  same result for both; with the same head, \<open>Decode\<close> returns the same value with
  \<open>ok = true\<close> for both.
\<close>

theorem debase_wraps_and_collides:
  "''f3333333333333'' \<noteq> ''3zpkjcagecs628'' \<and>
   set ''f3333333333333'' \<subseteq> set (Alphabet DefaultEncoder) \<and>
   set ''3zpkjcagecs628'' \<subseteq> set (Alphabet DefaultEncoder) \<and>
   CHR ''q'' \<in> set (Alphabet DefaultEncoder) \<and>
   (31::nat) ^ 13 = 2 ^ 64 + unat (debase DefaultEncoder ''3zpkjcagecs628'') \<and>
   debase DefaultEncoder ''f3333333333333'' = debase DefaultEncoder ''3zpkjcagecs628'' \<and>
   Decode DefaultEncoder ''qf3333333333333'' = Inr (5970802223737312187, True) \<and>
   Decode DefaultEncoder ''q3zpkjcagecs628'' = Inr (5970802223737312187, True)"
proof -
  have d1: "debase DefaultEncoder ''f3333333333333'' = 5970802223735490975"
    by (simp add: debase_def debase_step_def IndexByte_def len64_def default_config)
  have d2: "debase DefaultEncoder ''3zpkjcagecs628'' = 5970802223735490975"
    by (simp add: debase_def debase_step_def IndexByte_def len64_def default_config)
  have s: "scramble DefaultEncoder 5970802223735490975 = 5970802223737312187"
    by (simp add: scramble_def scramble_loop.simps default_config)
  have "Decode DefaultEncoder ''qf3333333333333'' = Inr (5970802223737312187, True)"
    using valid_DefaultEncoder by (simp add: Decode_valid d1 s) (simp add: default_config)
  moreover have "Decode DefaultEncoder ''q3zpkjcagecs628'' = Inr (5970802223737312187, True)"
    using valid_DefaultEncoder by (simp add: Decode_valid d2 s) (simp add: default_config)
  moreover have "set ''f3333333333333'' \<subseteq> set (Alphabet DefaultEncoder)"
    "set ''3zpkjcagecs628'' \<subseteq> set (Alphabet DefaultEncoder)"
    "CHR ''q'' \<in> set (Alphabet DefaultEncoder)"
    by (simp_all add: default_config)
  ultimately show ?thesis
    by (simp add: d1 d2)
qed

section \<open>Further properties of the padding and of the loops\<close>

text \<open>
  For a valid configuration, \<open>enbase\<close> panics on every runtime whenever the natural
  representation of \<open>x\<close> is longer than \<open>minLength\<close>.
\<close>

theorem enbase_panics_below_natural_length:
  assumes "valid_config c"
    and "unat minLength < ndigits (length (Alphabet c)) (unat x)"
  shows "enbase rt c x minLength = Some (Inl MakesliceLenOutOfRange)"
  using assms by (rule enbase_longer_than_minLength)

theorem enbase_panics_below_natural_length_witness:
  "valid_config DefaultEncoder \<and>
   unat MinLength < ndigits (length (Alphabet DefaultEncoder)) (unat (33554432::uint64)) \<and>
   enbase Amd64Runtime DefaultEncoder 33554432 MinLength = Some (Inl MakesliceLenOutOfRange)"
proof -
  have h: "unat MinLength < ndigits (length (Alphabet DefaultEncoder)) (unat (33554432::uint64))"
    by (simp add: ndigits_Default_33554432 MinLength_def)
  from enbase_panics_below_natural_length [OF valid_DefaultEncoder h] valid_DefaultEncoder h
  show ?thesis
    by blast
qed

text \<open>
  Whenever \<open>Encode\<close> returns under a valid configuration, its second result is \<open>true\<close>.
\<close>

theorem Encode_flag_when_it_returns:
  assumes "valid_config c"
    and "Encode rt c n minLength = Some (Inr (s, ok))"
  shows "ok"
  using assms by (simp add: Encode_returns_iff)

text \<open>
  The padding can fail on a machine without panicking in \<open>makeslice\<close>: on a linux/amd64
  run with room for \<open>2 ^ 20\<close> bytes, \<open>Encode 1 (2 ^ 40)\<close> ends with the out-of-memory error
  and \<open>Encode 1 (2 ^ 49)\<close> with \<open>makeslice: len out of range\<close>.
\<close>

theorem Encode_fails_on_large_minLength:
  "Encode Amd64Runtime DefaultEncoder 1 1099511627776 = Some (Inl OutOfMemory) \<and>
   Encode Amd64Runtime DefaultEncoder 1 562949953421312 = Some (Inl MakesliceLenOutOfRange)"
proof -
  have "len64 (digits DefaultAlphabet 8388608) = 5"
    by (simp add: digits_Default_8388608 len64_def)
  then have
    "leftPad Amd64Runtime (digits DefaultAlphabet 8388608) 1099511627776 (DefaultAlphabet ! 0) =
      Inl OutOfMemory"
    "leftPad Amd64Runtime (digits DefaultAlphabet 8388608) 562949953421312 (DefaultAlphabet ! 0) =
      Inl MakesliceLenOutOfRange"
    by (simp_all add: leftPad_def times_bytes_eq Amd64Runtime_def)
  then show ?thesis
    using valid_DefaultEncoder
    by (simp add: Encode_valid DefaultEncoder_fields scramble_Default_1)
qed

text \<open>
  For a valid configuration the loop of \<open>enbase\<close> ends: \<open>enbase\<close> returns a string or
  fails, for every \<open>x\<close> and \<open>minLength\<close>.
\<close>

theorem enbase_terminates:
  assumes "valid_config c"
  shows "\<exists>r. enbase rt c x minLength = Some r"
  using assms by (simp add: enbase_valid)

theorem enbase_terminates_witness:
  "valid_config DefaultEncoder \<and> (\<exists>r. enbase Amd64Runtime DefaultEncoder 1 0 = Some r)"
  using enbase_terminates [OF valid_DefaultEncoder, of Amd64Runtime 1 0] valid_DefaultEncoder
  by blast

lemma enbase_loop_one_symbol:
  assumes "length alphabet = 1" "0 < x"
  shows "enbase_loop alphabet x chars = None"
proof (rule ccontr)
  assume "enbase_loop alphabet x chars \<noteq> None"
  then obtain r where r: "enbase_loop alphabet x chars = Some r"
    by blast
  have "\<not> (length alphabet = 1 \<and> 0 < x)"
  proof (rule enbase_loop.raw_induct
      [where P = "\<lambda>a x c r. \<not> (length a = 1 \<and> 0 < x)"
         and xa = "((alphabet, x), chars)" and y = r, unfolded prod.case, OF _ r])
    fix f :: "byte list \<Rightarrow> uint64 \<Rightarrow> byte list \<Rightarrow> (panic + byte list) option"
    fix a :: "byte list" and x :: uint64 and c :: "byte list" and y :: "panic + byte list"
    assume IH: "\<And>a x c y. f a x c = Some y \<Longrightarrow> \<not> (length a = 1 \<and> 0 < x)"
    assume body: "(if 0 < x then
        (if len64 a = 0 then Some (Inl DivideByZero)
         else if unat (x mod len64 a) < length a
           then f a (x div len64 a) (a ! unat (x mod len64 a) # c)
           else Some (Inl IndexOutOfRange))
      else Some (Inr c)) = Some y"
    show "\<not> (length a = 1 \<and> 0 < x)"
    proof
      assume one: "length a = 1 \<and> 0 < x"
      then have "len64 a = 1"
        by (simp add: len64_def)
      with one body have "f a x (a ! 0 # c) = Some y"
        by (simp split: if_splits)
      with IH one show False
        by blast
    qed
  qed
  with assms show False
    by simp
qed

text \<open>
  With an alphabet of one symbol the loop of \<open>enbase\<close> never ends for \<open>x > 0\<close>:
  \<open>x / 1\<close> is \<open>x\<close> again.
\<close>

theorem enbase_diverges_on_one_symbol:
  assumes "length (Alphabet c) = 1" and "0 < x"
  shows "enbase rt c x minLength = None"
  using assms by (simp add: enbase_def enbase_loop_one_symbol)

theorem enbase_diverges_on_one_symbol_witness:
  "length (Alphabet \<lparr>Alphabet = ''a'', BlockSize = 0, Checksum = 1\<rparr>) = 1 \<and> (0::uint64) < 1 \<and>
   enbase Amd64Runtime \<lparr>Alphabet = ''a'', BlockSize = 0, Checksum = 1\<rparr> 1 0 = None"
proof -
  have h1: "length (Alphabet \<lparr>Alphabet = ''a'', BlockSize = 0, Checksum = 1\<rparr>) = 1"
    by simp
  have h2: "(0::uint64) < 1"
    by simp
  from enbase_diverges_on_one_symbol [OF h1 h2, of Amd64Runtime 0] h1 h2 show ?thesis
    by blast
qed

text \<open>\<open>Decode\<close> of the empty string panics in \<open>b[1:]\<close>.\<close>

theorem Decode_empty_panics: "Decode c [] = Inl SliceBoundsOutOfRange"
  by (simp add: Decode_def)

end
